theory Spec2Isabelle
  imports Main
begin

section \<open>The header \<open>vk_mem_alloc.hpp\<close> as a preprocessor program\<close>

text \<open>
  The repository's only source file is a C++ header made of preprocessor directives.
  It is embedded here as it is written, line by line, as text. The rest of this section
  is the part of the C preprocessor that the header exercises: a lexer for replacement
  lists, a parser for directive lines, conditional groups, macro definition, inclusion
  and macro expansion.

  Not covered, because the header has none of it: comments, line continuations,
  \<open>#else\<close>/\<open>#elif\<close>, variadic macros, the \<open>##\<close> operator, string and character
  literals in the source text, arithmetic in \<open>#if\<close>. A \<open>#define\<close> or a line of
  program text with a quote, a backslash, \<open>##\<close>, \<open>//\<close> or \<open>/*\<close> in it, and any
  directive the parser does not know, parses to \<open>Unsupported\<close> (a condition to
  \<open>COther\<close>) and stops the run with an error of its own, also inside a group that is
  skipped, so nothing is silently given a meaning. Punctuators are lexed one character
  at a time (\<open>::\<close> is two tokens with nothing between them), which spells back the
  same.
\<close>

subsection \<open>Tokens and macros\<close>

datatype tok =
    Ident string
  | Number string
  | StrLit string
  | LParen
  | RParen
  | Comma
  | Hash
  | Punct char
  | Space

text \<open>
  \<open>Space\<close> stands for the white space between two tokens written apart. It is kept
  in a replacement list because it shows in what \<open>#\<close> produces, and because two
  definitions of a macro agree only if their tokens are separated alike. \<open>StrLit\<close>
  is what \<open>#\<close> produces; the lexer never does.
\<close>

datatype macro =
    Obj "tok list"
  | Fn "string list" "tok list"

type_synonym macro_table = "string \<rightharpoonup> macro"

datatype incl = Quoted | Angled

datatype cond = CDefined string | CNot cond | COther string

datatype line =
    Blank
  | IfNDef string
  | IfDef string
  | IfCond cond
  | EndIf
  | Define string macro
  | Undef string
  | Include incl string
  | ErrorD string
  | WarningD string
  | Text "tok list"
  | Unsupported string

subsection \<open>Lexing\<close>

definition ident_chars :: string where
  "ident_chars = ''abcdefghijklmnopqrstuvwxyzABCDEFGHIJKLMNOPQRSTUVWXYZ0123456789_''"

definition is_ident_char :: "char \<Rightarrow> bool" where
  "is_ident_char c = (c \<in> set ident_chars)"

definition is_digit :: "char \<Rightarrow> bool" where
  "is_digit c = (c \<in> set ''0123456789'')"

definition is_space :: "char \<Rightarrow> bool" where
  "is_space c = (c = CHR '' '' \<or> c = CHR 0x09)"

definition skip_spaces :: "string \<Rightarrow> string" where
  "skip_spaces s = dropWhile is_space s"

definition ident_prefix :: "string \<Rightarrow> string" where
  "ident_prefix s = takeWhile is_ident_char s"

definition after_ident :: "string \<Rightarrow> string" where
  "after_ident s = dropWhile is_ident_char s"

fun word_tok :: "string \<Rightarrow> tok list" where
  "word_tok [] = []"
| "word_tok (c # cs) = (if is_digit c then [Number (c # cs)] else [Ident (c # cs)])"

definition punct_tok :: "char \<Rightarrow> tok list" where
  "punct_tok c =
     (if is_space c then [Space]
      else if c = CHR ''('' then [LParen]
      else if c = CHR '')'' then [RParen]
      else if c = CHR '','' then [Comma]
      else if c = CHR ''#'' then [Hash]
      else [Punct c])"

text \<open>\<open>lex w s\<close>: the tokens of \<open>s\<close>, where \<open>w\<close> is the word read so far.\<close>

fun lex :: "string \<Rightarrow> string \<Rightarrow> tok list" where
  "lex w [] = word_tok w"
| "lex w (c # cs) =
     (if is_ident_char c then lex (w @ [c]) cs
      else word_tok w @ punct_tok c @ lex [] cs)"

text \<open>
  A run of white space counts once, and white space before the first and after the last
  token does not belong to a replacement list.
\<close>

fun squeeze :: "tok list \<Rightarrow> tok list" where
  "squeeze [] = []"
| "squeeze (t # ts) =
     (if t = Space \<and> take 1 ts = [Space] then squeeze ts else t # squeeze ts)"

definition trim :: "tok list \<Rightarrow> tok list" where
  "trim ts = rev (dropWhile (\<lambda>t. t = Space) (rev (dropWhile (\<lambda>t. t = Space) ts)))"

definition tokens :: "string \<Rightarrow> tok list" where
  "tokens s = trim (squeeze (lex [] s))"

text \<open>Text the lexer does not take on: literals, comments, continuations, \<open>##\<close>.\<close>

fun has_pair :: "char \<Rightarrow> char \<Rightarrow> string \<Rightarrow> bool" where
  "has_pair a b (c # d # cs) = ((c = a \<and> d = b) \<or> has_pair a b (d # cs))"
| "has_pair a b cs = False"

definition unsupported_text :: "string \<Rightarrow> bool" where
  "unsupported_text s =
     (CHR 0x22 \<in> set s \<or> CHR 0x27 \<in> set s \<or> CHR 0x5C \<in> set s
      \<or> has_pair (CHR ''#'') (CHR ''#'') s
      \<or> has_pair (CHR ''/'') (CHR ''/'') s
      \<or> has_pair (CHR ''/'') (CHR ''*'') s)"

fun ident_names :: "tok list \<Rightarrow> string list" where
  "ident_names [] = []"
| "ident_names (Ident x # ts) = x # ident_names ts"
| "ident_names (t # ts) = ident_names ts"

subsection \<open>Parsing a line\<close>

text \<open>
  The operand of \<open>#if\<close>: \<open>defined(X)\<close>, \<open>defined X\<close> and \<open>!\<close> in front of a
  condition. Anything else is kept as \<open>COther\<close>.
\<close>

definition parse_defined :: "string \<Rightarrow> cond" where
  "parse_defined s =
     (if ident_prefix s = ''defined'' then
        (let r = skip_spaces (after_ident s) in
         case r of
           [] \<Rightarrow> COther s
         | c # cs \<Rightarrow>
             if c = CHR ''('' then
               (let a = skip_spaces cs; x = ident_prefix a in
                if x \<noteq> [] \<and> skip_spaces (after_ident a) = '')'' then CDefined x
                else COther s)
             else
               (let x = ident_prefix r in
                if x \<noteq> [] \<and> skip_spaces (after_ident r) = [] then CDefined x
                else COther s))
      else COther s)"

fun parse_cond :: "string \<Rightarrow> cond" where
  "parse_cond [] = COther []"
| "parse_cond (c # cs) =
     (if is_space c then parse_cond cs
      else if c = CHR ''!'' then CNot (parse_cond cs)
      else parse_defined (c # cs))"

definition parse_include :: "string \<Rightarrow> line" where
  "parse_include s =
     (case s of
        [] \<Rightarrow> Unsupported s
      | c # cs \<Rightarrow>
          if c = CHR 0x22 \<and> CHR 0x22 \<in> set cs
            then Include Quoted (takeWhile (\<lambda>d. d \<noteq> CHR 0x22) cs)
          else if c = CHR ''<'' \<and> CHR ''>'' \<in> set cs
            then Include Angled (takeWhile (\<lambda>d. d \<noteq> CHR ''>'') cs)
          else Unsupported s)"

text \<open>
  \<open>#define\<close>: a name directly followed by \<open>(\<close> starts a function-like macro with the
  parameter list up to the next \<open>)\<close>, names separated by commas; otherwise the macro
  is object-like and everything after the name is its replacement list.
\<close>

definition params_ok :: "tok list \<Rightarrow> bool" where
  "params_ok ts =
     list_all (\<lambda>t. case t of Ident x \<Rightarrow> True | Comma \<Rightarrow> True | Space \<Rightarrow> True | _ \<Rightarrow> False) ts"

definition parse_define :: "string \<Rightarrow> line" where
  "parse_define s =
     (let x = ident_prefix s; r = after_ident s in
      if x = [] \<or> unsupported_text s then Unsupported s
      else case r of
        [] \<Rightarrow> Define x (Obj [])
      | c # cs \<Rightarrow>
          if c = CHR ''('' then
            (if CHR '')'' \<in> set cs \<and> params_ok (tokens (takeWhile (\<lambda>d. d \<noteq> CHR '')'') cs))
             then Define x (Fn (ident_names (tokens (takeWhile (\<lambda>d. d \<noteq> CHR '')'') cs)))
                               (tokens (drop 1 (dropWhile (\<lambda>d. d \<noteq> CHR '')'') cs))))
             else Unsupported s)
          else Define x (Obj (tokens r)))"

definition parse_directive :: "string \<Rightarrow> line" where
  "parse_directive s =
     (let kw = ident_prefix s; r = skip_spaces (after_ident s) in
      if kw = ''ifndef'' then (if ident_prefix r = [] then Unsupported s else IfNDef (ident_prefix r))
      else if kw = ''ifdef'' then (if ident_prefix r = [] then Unsupported s else IfDef (ident_prefix r))
      else if kw = ''if'' then IfCond (parse_cond r)
      else if kw = ''endif'' then EndIf
      else if kw = ''define'' then parse_define r
      else if kw = ''undef'' then (if ident_prefix r = [] then Unsupported s else Undef (ident_prefix r))
      else if kw = ''include'' then parse_include r
      else if kw = ''error'' then ErrorD r
      else if kw = ''warning'' then WarningD r
      else Unsupported s)"

definition parse_line :: "string \<Rightarrow> line" where
  "parse_line s =
     (case skip_spaces s of
        [] \<Rightarrow> Blank
      | c # cs \<Rightarrow>
          if c = CHR ''#'' then parse_directive (skip_spaces cs)
          else if unsupported_text s then Unsupported s
          else Text (tokens (c # cs)))"

subsection \<open>The source file\<close>

text \<open>The eighteen lines of \<open>vk_mem_alloc.hpp\<close>, verbatim.\<close>

definition vk_mem_alloc_hpp :: "string list" where
  \<open>vk_mem_alloc_hpp =
    [''#ifndef VULKAN_MEMORY_ALLOCATOR_HPP'',
     ''#define VULKAN_MEMORY_ALLOCATOR_HPP'',
     '''',
     ''#include "vk_mem_alloc.h"'',
     ''#include <vulkan/vulkan.hpp>'',
     '''',
     ''#if !defined(VMA_HPP_NAMESPACE)'',
     ''#define VMA_HPP_NAMESPACE vma'',
     ''#endif'',
     '''',
     ''#define VMA_HPP_NAMESPACE_STRING VULKAN_HPP_STRINGIFY(VMA_HPP_NAMESPACE)'',
     '''',
     ''#include "vk_mem_alloc_enums.hpp"'',
     ''#include "vk_mem_alloc_handles.hpp"'',
     ''#include "vk_mem_alloc_structs.hpp"'',
     ''#include "vk_mem_alloc_funcs.hpp"'',
     '''',
     ''#endif'']\<close>

definition header_lines :: "line list" where
  "header_lines = map parse_line vk_mem_alloc_hpp"

subsection \<open>Conditional groups, definitions and inclusion\<close>

text \<open>
  The header includes six other files. None of them is part of the sources, so what
  processing a file does to the macro table is a parameter: \<open>env h t\<close> is the table
  after file \<open>h\<close> has been processed starting from table \<open>t\<close>, or \<open>None\<close> when the file
  is missing or its processing fails, which ends the translation.
\<close>

type_synonym header_env = "string \<Rightarrow> macro_table \<Rightarrow> macro_table option"

datatype error =
    IncludeFailed string
  | ErrorDirective string
  | StrayEndif
  | UnterminatedConditional
  | UnsupportedLine string
  | UnsupportedCondition string

text \<open>
  What the processing of a file does itself, in order: starting on an included file
  and coming back from it (with the macro table at that moment), defining and
  undefining a macro, a \<open>#warning\<close>, and a line of program text handed on to the
  compiler. An inclusion that fails is recorded as started and never left.
\<close>

datatype event =
    Entered string macro_table
  | Left string macro_table
  | Defined string macro
  | Undefined string
  | Warned string
  | Code "tok list"

text \<open>
  A \<open>#define\<close> of a name that is already defined with another replacement list
  (or another kind or parameter list) is ill-formed: the translator must diagnose it,
  at the line of the \<open>#define\<close>. Compilers go on with the new definition, as a warning
  by default, so the notice is recorded and the run continues. Notices are kept apart
  from the trace, which records what the directives do.
\<close>

datatype notice = Redefinition string macro macro

record pp_state =
  macros :: macro_table
  trace :: "event list"
  notices :: "notice list"

fun eval_cond :: "macro_table \<Rightarrow> cond \<Rightarrow> bool option" where
  "eval_cond t (CDefined x) = Some (t x \<noteq> None)"
| "eval_cond t (CNot c) = map_option Not (eval_cond t c)"
| "eval_cond t (COther s) = None"

text \<open>
  The stack holds one truth value for each open conditional group, innermost first.
  A line is processed when every group around it is taken.
\<close>

definition active :: "bool list \<Rightarrow> bool" where
  "active st = list_all (\<lambda>b. b) st"

definition emit :: "event list \<Rightarrow> pp_state \<Rightarrow> pp_state" where
  "emit es s = s\<lparr>trace := trace s @ es\<rparr>"

definition redefinition :: "macro option \<Rightarrow> string \<Rightarrow> macro \<Rightarrow> notice list" where
  "redefinition old x m =
     (case old of
        None \<Rightarrow> []
      | Some d \<Rightarrow> if d = m then [] else [Redefinition x d m])"

definition complain :: "notice list \<Rightarrow> pp_state \<Rightarrow> pp_state" where
  "complain ns s = s\<lparr>notices := notices s @ ns\<rparr>"

fun exec :: "header_env \<Rightarrow> line list \<Rightarrow> bool list \<Rightarrow> pp_state \<Rightarrow> (error \<times> pp_state) + pp_state" where
  "exec env [] st s = (if st = [] then Inr s else Inl (UnterminatedConditional, s))"
| "exec env (Blank # ls) st s = exec env ls st s"
| "exec env (IfNDef x # ls) st s =
     exec env ls ((active st \<and> macros s x = None) # st) s"
| "exec env (IfDef x # ls) st s =
     exec env ls ((active st \<and> macros s x \<noteq> None) # st) s"
| "exec env (IfCond c # ls) st s =
     (if active st then
        (case eval_cond (macros s) c of
           None \<Rightarrow> Inl (UnsupportedCondition (case c of COther r \<Rightarrow> r | _ \<Rightarrow> []), s)
         | Some b \<Rightarrow> exec env ls (b # st) s)
      else exec env ls (False # st) s)"
| "exec env (EndIf # ls) st s =
     (case st of [] \<Rightarrow> Inl (StrayEndif, s) | b # st' \<Rightarrow> exec env ls st' s)"
| "exec env (Define x m # ls) st s =
     (if active st
      then exec env ls st
             (emit [Defined x m]
                (complain (redefinition (macros s x) x m) (s\<lparr>macros := (macros s)(x \<mapsto> m)\<rparr>)))
      else exec env ls st s)"
| "exec env (Undef x # ls) st s =
     (if active st
      then exec env ls st (emit [Undefined x] (s\<lparr>macros := (macros s)(x := None)\<rparr>))
      else exec env ls st s)"
| "exec env (Include k h # ls) st s =
     (if active st then
        (case env h (macros s) of
           None \<Rightarrow> Inl (IncludeFailed h, emit [Entered h (macros s)] s)
         | Some t \<Rightarrow> exec env ls st (emit [Entered h (macros s), Left h t] (s\<lparr>macros := t\<rparr>)))
      else exec env ls st s)"
| "exec env (ErrorD msg # ls) st s =
     (if active st then Inl (ErrorDirective msg, s) else exec env ls st s)"
| "exec env (WarningD msg # ls) st s =
     (if active st then exec env ls st (emit [Warned msg] s) else exec env ls st s)"
| "exec env (Text ts # ls) st s =
     (if active st then exec env ls st (emit [Code ts] s) else exec env ls st s)"
| "exec env (Unsupported r # ls) st s = Inl (UnsupportedLine r, s)"

text \<open>Processing \<open>#include "vk_mem_alloc.hpp"\<close> in state \<open>s\<close>.\<close>

definition process_header :: "header_env \<Rightarrow> pp_state \<Rightarrow> (error \<times> pp_state) + pp_state" where
  "process_header env s = exec env header_lines [] s"

subsection \<open>Macro expansion\<close>

text \<open>
  Expansion follows the standard algorithm with hide sets: every token carries the set
  of macro names that may no longer be expanded in it. An object-like macro is replaced
  by its replacement list; a function-like macro followed by \<open>(\<close> has its arguments
  collected up to the matching \<open>)\<close>; a parameter after \<open>#\<close> becomes the string
  literal of the argument as written, any other parameter the fully expanded argument;
  the result is rescanned together with the rest of the line. The string literal spells
  the tokens of the argument with one space wherever white space separates two of them,
  and none before the first or after the last. The recursion counts down fuel, one unit for each step of the scan; running
  out of it is the error \<open>OutOfFuel\<close>.
\<close>

type_synonym htok = "tok \<times> string set"

datatype xerror =
    OutOfFuel
  | UnterminatedCall string
  | WrongArity string

fun escape :: "string \<Rightarrow> string" where
  "escape [] = []"
| "escape (c # cs) =
     (if c = CHR 0x22 \<or> c = CHR 0x5C then CHR 0x5C # c # escape cs else c # escape cs)"

fun spelling :: "tok \<Rightarrow> string" where
  "spelling (Ident x) = x"
| "spelling (Number x) = x"
| "spelling (StrLit x) = [CHR 0x5C, CHR 0x22] @ escape x @ [CHR 0x5C, CHR 0x22]"
| "spelling LParen = ''(''"
| "spelling RParen = '')''"
| "spelling Comma = '',''"
| "spelling Hash = ''#''"
| "spelling (Punct c) = [c]"
| "spelling Space = '' ''"

text \<open>\<open>spell_from sp ts\<close>: the spelling of \<open>ts\<close> after a token; \<open>sp\<close> says a space is due.\<close>

fun spell_from :: "bool \<Rightarrow> tok list \<Rightarrow> string" where
  "spell_from sp [] = []"
| "spell_from sp (t # ts) =
     (if t = Space then spell_from True ts
      else (if sp then '' '' else []) @ spelling t @ spell_from False ts)"

definition spell_arg :: "tok list \<Rightarrow> string" where
  "spell_arg ts = spell_from False (dropWhile (\<lambda>t. t = Space) ts)"

definition stringize :: "htok list \<Rightarrow> tok" where
  "stringize a = StrLit (spell_arg (map fst a))"

text \<open>
  \<open>collect_args d cur fin ts\<close> reads the arguments of a call after its opening
  parenthesis: \<open>d\<close> is the nesting depth, \<open>cur\<close> the argument being read and \<open>fin\<close>
  the arguments finished. It returns the arguments, the hide set of the closing
  parenthesis and the tokens after it.
\<close>

fun collect_args :: "nat \<Rightarrow> htok list \<Rightarrow> htok list list \<Rightarrow> htok list
    \<Rightarrow> (htok list list \<times> string set \<times> htok list) option" where
  "collect_args d cur fin [] = None"
| "collect_args d cur fin ((t, h) # ts) =
     (if t = RParen then
        (case d of
           0 \<Rightarrow> Some (fin @ [cur], h, ts)
         | Suc d' \<Rightarrow> collect_args d' (cur @ [(t, h)]) fin ts)
      else if t = LParen then collect_args (Suc d) (cur @ [(t, h)]) fin ts
      else if t = Comma \<and> d = 0 then collect_args d [] (fin @ [cur]) ts
      else collect_args d (cur @ [(t, h)]) fin ts)"

text \<open>
  A macro without parameters is called with nothing but white space between the
  parentheses; any other macro with as many arguments as it has parameters.
\<close>

definition arity_ok :: "string list \<Rightarrow> htok list list \<Rightarrow> bool" where
  "arity_ok ps as =
     (if ps = [] then length as = 1 \<and> list_all (\<lambda>p. fst p = Space) (concat as)
      else length as = length ps)"

definition cons_res :: "'a \<Rightarrow> xerror + 'a list \<Rightarrow> xerror + 'a list" where
  "cons_res t r = (case r of Inl e \<Rightarrow> Inl e | Inr ts \<Rightarrow> Inr (t # ts))"

definition append_res :: "'a list \<Rightarrow> xerror + 'a list \<Rightarrow> xerror + 'a list" where
  "append_res us r = (case r of Inl e \<Rightarrow> Inl e | Inr ts \<Rightarrow> Inr (us @ ts))"

text \<open>
  \<open>subst ex b body\<close> instantiates a replacement list: \<open>b\<close> binds the parameters to the
  arguments as written and \<open>ex\<close> expands an argument where a parameter is used plainly.
\<close>

fun subst :: "(htok list \<Rightarrow> xerror + htok list) \<Rightarrow> (string \<rightharpoonup> htok list) \<Rightarrow> tok list
    \<Rightarrow> xerror + htok list" where
  "subst ex b [] = Inr []"
| "subst ex b (t # ts) =
     (case t of
        Hash \<Rightarrow>
          (case ts of
             Ident p # ts' \<Rightarrow>
               (case b p of
                  Some a \<Rightarrow> cons_res (stringize a, {}) (subst ex b ts')
                | None \<Rightarrow> cons_res (Hash, {}) (subst ex b ts))
           | Space # Ident p # ts' \<Rightarrow>
               (case b p of
                  Some a \<Rightarrow> cons_res (stringize a, {}) (subst ex b ts')
                | None \<Rightarrow> cons_res (Hash, {}) (subst ex b ts))
           | _ \<Rightarrow> cons_res (Hash, {}) (subst ex b ts))
      | Ident p \<Rightarrow>
          (case b p of
             Some a \<Rightarrow> (case ex a of Inl e \<Rightarrow> Inl e | Inr e \<Rightarrow> append_res e (subst ex b ts))
           | None \<Rightarrow> cons_res (Ident p, {}) (subst ex b ts))
      | _ \<Rightarrow> cons_res (t, {}) (subst ex b ts))"

definition hsadd :: "string set \<Rightarrow> htok list \<Rightarrow> htok list" where
  "hsadd hs ts = map (\<lambda>p. (fst p, snd p \<union> hs)) ts"

text \<open>
  One step of the scan. \<open>rec\<close> expands what remains after the step; it is the scan
  itself with one unit of fuel less.
\<close>

definition expand_step :: "(htok list \<Rightarrow> xerror + htok list) \<Rightarrow> macro_table \<Rightarrow> htok list
    \<Rightarrow> xerror + htok list" where
  "expand_step rec M ts =
     (case ts of
        [] \<Rightarrow> Inr []
      | (t, h) # rest \<Rightarrow>
          (case t of
             Ident x \<Rightarrow>
               if x \<in> h then cons_res (t, h) (rec rest)
               else
                 (case M x of
                    None \<Rightarrow> cons_res (t, h) (rec rest)
                  | Some (Obj body) \<Rightarrow> rec (map (\<lambda>u. (u, insert x h)) body @ rest)
                  | Some (Fn ps body) \<Rightarrow>
                      (case dropWhile (\<lambda>p. fst p = Space) rest of
                         [] \<Rightarrow> cons_res (t, h) (rec rest)
                       | (t0, h0) # rest' \<Rightarrow>
                           if t0 = LParen then
                             (case collect_args 0 [] [] rest' of
                                None \<Rightarrow> Inl (UnterminatedCall x)
                              | Some (as, h', rest'') \<Rightarrow>
                                  if \<not> arity_ok ps as then Inl (WrongArity x)
                                  else
                                    (case subst rec (map_of (zip ps as)) body of
                                       Inl e \<Rightarrow> Inl e
                                     | Inr os \<Rightarrow> rec (hsadd (insert x (h \<inter> h')) os @ rest'')))
                           else cons_res (t, h) (rec rest)))
           | _ \<Rightarrow> cons_res (t, h) (rec rest)))"

primrec expand :: "nat \<Rightarrow> macro_table \<Rightarrow> htok list \<Rightarrow> xerror + htok list" where
  "expand 0 M ts = (if ts = [] then Inr [] else Inl OutOfFuel)"
| "expand (Suc k) M ts = expand_step (expand k M) M ts"



subsection \<open>Names used by the header\<close>

abbreviation GUARD :: string where "GUARD \<equiv> ''VULKAN_MEMORY_ALLOCATOR_HPP''"
abbreviation NS :: string where "NS \<equiv> ''VMA_HPP_NAMESPACE''"
abbreviation NSS :: string where "NSS \<equiv> ''VMA_HPP_NAMESPACE_STRING''"
abbreviation STRINGIFY :: string where "STRINGIFY \<equiv> ''VULKAN_HPP_STRINGIFY''"
abbreviation STRINGIFY2 :: string where "STRINGIFY2 \<equiv> ''VULKAN_HPP_STRINGIFY2''"

abbreviation VMA_H :: string where "VMA_H \<equiv> ''vk_mem_alloc.h''"
abbreviation VULKAN_HPP :: string where "VULKAN_HPP \<equiv> ''vulkan/vulkan.hpp''"
abbreviation ENUMS_HPP :: string where "ENUMS_HPP \<equiv> ''vk_mem_alloc_enums.hpp''"
abbreviation HANDLES_HPP :: string where "HANDLES_HPP \<equiv> ''vk_mem_alloc_handles.hpp''"
abbreviation STRUCTS_HPP :: string where "STRUCTS_HPP \<equiv> ''vk_mem_alloc_structs.hpp''"
abbreviation FUNCS_HPP :: string where "FUNCS_HPP \<equiv> ''vk_mem_alloc_funcs.hpp''"

definition dependency_headers :: "string list" where
  "dependency_headers = [VMA_H, VULKAN_HPP]"

definition wrapper_headers :: "string list" where
  "wrapper_headers = [ENUMS_HPP, HANDLES_HPP, STRUCTS_HPP, FUNCS_HPP]"

subsection \<open>Reading the file and the trace\<close>

fun is_include :: "line \<Rightarrow> bool" where
  "is_include (Include k h) = True"
| "is_include l = False"

fun is_define :: "line \<Rightarrow> bool" where
  "is_define (Define x m) = True"
| "is_define l = False"

fun is_conditional :: "line \<Rightarrow> bool" where
  "is_conditional (IfNDef x) = True"
| "is_conditional (IfDef x) = True"
| "is_conditional (IfCond c) = True"
| "is_conditional l = False"

fun is_text :: "line \<Rightarrow> bool" where
  "is_text (Text ts) = True"
| "is_text l = False"

text \<open>
  A line through which a file reports a problem of its own: \<open>#error\<close>,
  \<open>#warning\<close>, or program text with a \<open>static_assert\<close>.
\<close>

fun is_diagnostic :: "line \<Rightarrow> bool" where
  "is_diagnostic (ErrorD msg) = True"
| "is_diagnostic (WarningD msg) = True"
| "is_diagnostic (Text ts) = (Ident ''static_assert'' \<in> set ts)"
| "is_diagnostic l = False"

fun included_names :: "line list \<Rightarrow> string list" where
  "included_names [] = []"
| "included_names (Include k h # ls) = h # included_names ls"
| "included_names (l # ls) = included_names ls"

fun defined_names :: "line list \<Rightarrow> string list" where
  "defined_names [] = []"
| "defined_names (Define x m # ls) = x # defined_names ls"
| "defined_names (l # ls) = defined_names ls"

text \<open>
  \<open>nesting st ls\<close> pairs every line with the conditionals open around it, innermost
  first; \<open>enclosing l\<close> lists these for each occurrence of \<open>l\<close> in the header.
\<close>

fun nesting :: "line list \<Rightarrow> line list \<Rightarrow> (line \<times> line list) list" where
  "nesting st [] = []"
| "nesting st (IfNDef x # ls) = (IfNDef x, st) # nesting (IfNDef x # st) ls"
| "nesting st (IfDef x # ls) = (IfDef x, st) # nesting (IfDef x # st) ls"
| "nesting st (IfCond c # ls) = (IfCond c, st) # nesting (IfCond c # st) ls"
| "nesting st (EndIf # ls) = (EndIf, drop 1 st) # nesting (drop 1 st) ls"
| "nesting st (l # ls) = (l, st) # nesting st ls"

definition enclosing :: "line \<Rightarrow> line list list" where
  "enclosing l = map snd (filter (\<lambda>p. fst p = l) (nesting [] header_lines))"

text \<open>The events that one inclusion of the header added to the trace.\<close>

definition own_events :: "pp_state \<Rightarrow> pp_state \<Rightarrow> event list" where
  "own_events s s' = drop (length (trace s)) (trace s')"

definition own_notices :: "pp_state \<Rightarrow> pp_state \<Rightarrow> notice list" where
  "own_notices s s' = drop (length (notices s)) (notices s')"

datatype mark = Enter string | Leave string | Def string | Undef_mark string | Warning_mark | Code_mark

fun mark_of :: "event \<Rightarrow> mark" where
  "mark_of (Entered h t) = Enter h"
| "mark_of (Left h t) = Leave h"
| "mark_of (Defined x m) = Def x"
| "mark_of (Undefined x) = Undef_mark x"
| "mark_of (Warned msg) = Warning_mark"
| "mark_of (Code ts) = Code_mark"

definition marks :: "event list \<Rightarrow> mark list" where
  "marks es = map mark_of es"

text \<open>The files entered, each with the macro table it starts from.\<close>

fun entries :: "event list \<Rightarrow> (string \<times> macro_table) list" where
  "entries [] = []"
| "entries (Entered h t # es) = (h, t) # entries es"
| "entries (e # es) = entries es"

subsection \<open>What the Vulkan C++ binding provides\<close>

text \<open>
  Modelled from the spec: the macro \<open>VULKAN_HPP_STRINGIFY\<close>, which line 11 of the
  header applies, is defined by \<open>vulkan/vulkan.hpp\<close>, a file that is not among the
  sources. The spec says only that the derived token is the stringified form of the
  namespace name, so the macro is taken to be the two-step stringification below, which
  is how the Vulkan C++ binding writes it.
\<close>

definition vulkan_hpp_stringify :: "string list" where
  "vulkan_hpp_stringify =
    [''#define VULKAN_HPP_STRINGIFY2( text ) #text'',
     ''#define VULKAN_HPP_STRINGIFY( text )  VULKAN_HPP_STRINGIFY2( text )'']"


text \<open>
  Three translation environments to run the header in. In \<open>plain_env\<close> every included
  file is present and defines no macro. In \<open>vulkan_env\<close> the Vulkan C++ binding also
  defines its stringification macros. In \<open>missing_vulkan_env\<close> the Vulkan C++ binding
  is not found. \<open>sample_table\<close> is the macro table at the end of a translation unit
  that does nothing but include the header.
\<close>

definition plain_env :: header_env where
  "plain_env h t = Some t"

definition vulkan_env :: header_env where
  "vulkan_env h t =
     (if h = VULKAN_HPP then
        (case exec (\<lambda>h' t'. None) (map parse_line vulkan_hpp_stringify) []
                \<lparr>macros = t, trace = [], notices = []\<rparr> of
           Inl e \<Rightarrow> None
         | Inr s \<Rightarrow> Some (macros s))
      else Some t)"

definition missing_vulkan_env :: header_env where
  "missing_vulkan_env h t = (if h = VULKAN_HPP then None else Some t)"

definition start :: "macro_table \<Rightarrow> pp_state" where
  "start t = \<lparr>macros = t, trace = [], notices = []\<rparr>"


subsection \<open>The tables and events of a run\<close>

text \<open>
  Auxiliary notions for stating what a run of the header produces: the table after the
  guard is defined (line 2), the table, the events and the notice after the two
  namespace macros are dealt with (lines 7 to 11), and the events of the run up to each
  of its six inclusions. They are related to \<open>exec\<close> on the parsed file by the lemmas of the next
  section.
\<close>

definition guard_def :: "macro_table \<Rightarrow> macro_table" where
  "guard_def t = t(GUARD \<mapsto> Obj [])"

definition ns_defs :: "macro_table \<Rightarrow> macro_table" where
  "ns_defs t = (if t NS = None then t(NS \<mapsto> Obj [Ident ''vma'']) else t)
                 (NSS \<mapsto> Obj [Ident STRINGIFY, LParen, Ident NS, RParen])"

definition ns_notices :: "macro_table \<Rightarrow> notice list" where
  "ns_notices t = redefinition (t NSS) NSS (Obj [Ident STRINGIFY, LParen, Ident NS, RParen])"

definition ns_events :: "macro_table \<Rightarrow> event list" where
  "ns_events t = (if t NS = None then [Defined NS (Obj [Ident ''vma''])] else [])
                 @ [Defined NSS (Obj [Ident STRINGIFY, LParen, Ident NS, RParen])]"

definition events_1 :: "macro_table \<Rightarrow> event list" where
  "events_1 m = [Defined GUARD (Obj []), Entered VMA_H (guard_def m)]"

definition events_2 :: "macro_table \<Rightarrow> macro_table \<Rightarrow> event list" where
  "events_2 m t1 = events_1 m @ [Left VMA_H t1, Entered VULKAN_HPP t1]"

definition events_3 :: "macro_table \<Rightarrow> macro_table \<Rightarrow> macro_table \<Rightarrow> event list" where
  "events_3 m t1 t2 =
     events_2 m t1 @ [Left VULKAN_HPP t2] @ ns_events t2 @ [Entered ENUMS_HPP (ns_defs t2)]"

definition events_4 :: "macro_table \<Rightarrow> macro_table \<Rightarrow> macro_table \<Rightarrow> macro_table \<Rightarrow> event list" where
  "events_4 m t1 t2 t3 = events_3 m t1 t2 @ [Left ENUMS_HPP t3, Entered HANDLES_HPP t3]"

definition events_5 :: "macro_table \<Rightarrow> macro_table \<Rightarrow> macro_table \<Rightarrow> macro_table \<Rightarrow> macro_table
    \<Rightarrow> event list" where
  "events_5 m t1 t2 t3 t4 = events_4 m t1 t2 t3 @ [Left HANDLES_HPP t4, Entered STRUCTS_HPP t4]"

definition events_6 :: "macro_table \<Rightarrow> macro_table \<Rightarrow> macro_table \<Rightarrow> macro_table \<Rightarrow> macro_table
    \<Rightarrow> macro_table \<Rightarrow> event list" where
  "events_6 m t1 t2 t3 t4 t5 =
     events_5 m t1 t2 t3 t4 @ [Left STRUCTS_HPP t5, Entered FUNCS_HPP t5]"

section \<open>Running the header\<close>

lemmas events_defs =
  events_1_def events_2_def events_3_def events_4_def events_5_def events_6_def

lemma header_lines_eq:
  "header_lines =
    [IfNDef GUARD, Define GUARD (Obj []), Blank,
     Include Quoted VMA_H, Include Angled VULKAN_HPP, Blank,
     IfCond (CNot (CDefined NS)), Define NS (Obj [Ident ''vma'']), EndIf, Blank,
     Define NSS (Obj [Ident STRINGIFY, LParen, Ident NS, RParen]), Blank,
     Include Quoted ENUMS_HPP, Include Quoted HANDLES_HPP,
     Include Quoted STRUCTS_HPP, Include Quoted FUNCS_HPP, Blank, EndIf]"
  by code_simp

lemma vulkan_lines_eq:
  "map parse_line vulkan_hpp_stringify =
    [Define STRINGIFY2 (Fn [''text''] [Hash, Ident ''text'']),
     Define STRINGIFY
       (Fn [''text''] [Ident STRINGIFY2, LParen, Space, Ident ''text'', Space, RParen])]"
  by code_simp


lemma redefinition_None [simp]: "redefinition None x m = []"
  by (simp add: redefinition_def)

lemma complain_Nil [simp]: "complain [] s = s"
  by (simp add: complain_def)

lemmas run_simps = process_header_def header_lines_eq active_def emit_def guard_def_def
  complain_def ns_notices_def
  ns_defs_def ns_events_def events_defs

lemma process_header_skipped:
  "macros s GUARD = Some d \<Longrightarrow> process_header env s = Inr s"
  by (simp add: run_simps)

lemma run_fail_1:
  assumes "macros s GUARD = None"
    and "env VMA_H (guard_def (macros s)) = None"
  shows "process_header env s = Inl (IncludeFailed VMA_H,
     s\<lparr>macros := guard_def (macros s), trace := trace s @ events_1 (macros s)\<rparr>)"
  using assms by (simp add: run_simps)

lemma run_fail_2:
  assumes "macros s GUARD = None"
    and "env VMA_H (guard_def (macros s)) = Some t1"
    and "env VULKAN_HPP t1 = None"
  shows "process_header env s = Inl (IncludeFailed VULKAN_HPP,
     s\<lparr>macros := t1, trace := trace s @ events_2 (macros s) t1\<rparr>)"
  using assms by (simp add: run_simps)

lemma run_fail_3:
  assumes "macros s GUARD = None"
    and "env VMA_H (guard_def (macros s)) = Some t1"
    and "env VULKAN_HPP t1 = Some t2"
    and "env ENUMS_HPP (ns_defs t2) = None"
  shows "process_header env s = Inl (IncludeFailed ENUMS_HPP,
     s\<lparr>macros := ns_defs t2, trace := trace s @ events_3 (macros s) t1 t2,
         notices := notices s @ ns_notices t2\<rparr>)"
proof (cases "t2 NS")
  case None
  with assms show ?thesis by (simp add: run_simps)
next
  case (Some d)
  with assms show ?thesis by (simp add: run_simps)
qed

lemma run_fail_4:
  assumes "macros s GUARD = None"
    and "env VMA_H (guard_def (macros s)) = Some t1"
    and "env VULKAN_HPP t1 = Some t2"
    and "env ENUMS_HPP (ns_defs t2) = Some t3"
    and "env HANDLES_HPP t3 = None"
  shows "process_header env s = Inl (IncludeFailed HANDLES_HPP,
     s\<lparr>macros := t3, trace := trace s @ events_4 (macros s) t1 t2 t3,
         notices := notices s @ ns_notices t2\<rparr>)"
proof (cases "t2 NS")
  case None
  with assms show ?thesis by (simp add: run_simps)
next
  case (Some d)
  with assms show ?thesis by (simp add: run_simps)
qed

lemma run_fail_5:
  assumes "macros s GUARD = None"
    and "env VMA_H (guard_def (macros s)) = Some t1"
    and "env VULKAN_HPP t1 = Some t2"
    and "env ENUMS_HPP (ns_defs t2) = Some t3"
    and "env HANDLES_HPP t3 = Some t4"
    and "env STRUCTS_HPP t4 = None"
  shows "process_header env s = Inl (IncludeFailed STRUCTS_HPP,
     s\<lparr>macros := t4, trace := trace s @ events_5 (macros s) t1 t2 t3 t4,
         notices := notices s @ ns_notices t2\<rparr>)"
proof (cases "t2 NS")
  case None
  with assms show ?thesis by (simp add: run_simps)
next
  case (Some d)
  with assms show ?thesis by (simp add: run_simps)
qed

lemma run_fail_6:
  assumes "macros s GUARD = None"
    and "env VMA_H (guard_def (macros s)) = Some t1"
    and "env VULKAN_HPP t1 = Some t2"
    and "env ENUMS_HPP (ns_defs t2) = Some t3"
    and "env HANDLES_HPP t3 = Some t4"
    and "env STRUCTS_HPP t4 = Some t5"
    and "env FUNCS_HPP t5 = None"
  shows "process_header env s = Inl (IncludeFailed FUNCS_HPP,
     s\<lparr>macros := t5, trace := trace s @ events_6 (macros s) t1 t2 t3 t4 t5,
         notices := notices s @ ns_notices t2\<rparr>)"
proof (cases "t2 NS")
  case None
  with assms show ?thesis by (simp add: run_simps)
next
  case (Some d)
  with assms show ?thesis by (simp add: run_simps)
qed

lemma run_ok:
  assumes "macros s GUARD = None"
    and "env VMA_H (guard_def (macros s)) = Some t1"
    and "env VULKAN_HPP t1 = Some t2"
    and "env ENUMS_HPP (ns_defs t2) = Some t3"
    and "env HANDLES_HPP t3 = Some t4"
    and "env STRUCTS_HPP t4 = Some t5"
    and "env FUNCS_HPP t5 = Some t6"
  shows "process_header env s = Inr
     (s\<lparr>macros := t6, trace := trace s @ events_6 (macros s) t1 t2 t3 t4 t5 @ [Left FUNCS_HPP t6],
         notices := notices s @ ns_notices t2\<rparr>)"
proof (cases "t2 NS")
  case None
  with assms show ?thesis by (simp add: run_simps)
next
  case (Some d)
  with assms show ?thesis by (simp add: run_simps)
qed

text \<open>Every run of the header body is one of these seven.\<close>

lemma process_header_cases [consumes 1, case_names fail1 fail2 fail3 fail4 fail5 fail6 ok]:
  assumes "macros s GUARD = None"
  obtains
    (fail1) "process_header env s = Inl (IncludeFailed VMA_H,
       s\<lparr>macros := guard_def (macros s), trace := trace s @ events_1 (macros s)\<rparr>)"
  | (fail2) t1 where "process_header env s = Inl (IncludeFailed VULKAN_HPP,
       s\<lparr>macros := t1, trace := trace s @ events_2 (macros s) t1\<rparr>)"
  | (fail3) t1 t2 where "process_header env s = Inl (IncludeFailed ENUMS_HPP,
       s\<lparr>macros := ns_defs t2, trace := trace s @ events_3 (macros s) t1 t2,
         notices := notices s @ ns_notices t2\<rparr>)"
  | (fail4) t1 t2 t3 where "process_header env s = Inl (IncludeFailed HANDLES_HPP,
       s\<lparr>macros := t3, trace := trace s @ events_4 (macros s) t1 t2 t3,
         notices := notices s @ ns_notices t2\<rparr>)"
  | (fail5) t1 t2 t3 t4 where "process_header env s = Inl (IncludeFailed STRUCTS_HPP,
       s\<lparr>macros := t4, trace := trace s @ events_5 (macros s) t1 t2 t3 t4,
         notices := notices s @ ns_notices t2\<rparr>)"
  | (fail6) t1 t2 t3 t4 t5 where "process_header env s = Inl (IncludeFailed FUNCS_HPP,
       s\<lparr>macros := t5, trace := trace s @ events_6 (macros s) t1 t2 t3 t4 t5,
         notices := notices s @ ns_notices t2\<rparr>)"
  | (ok) t1 t2 t3 t4 t5 t6 where
      "env VMA_H (guard_def (macros s)) = Some t1"
      "env VULKAN_HPP t1 = Some t2"
      "env ENUMS_HPP (ns_defs t2) = Some t3"
      "env HANDLES_HPP t3 = Some t4"
      "env STRUCTS_HPP t4 = Some t5"
      "env FUNCS_HPP t5 = Some t6"
      "process_header env s = Inr (s\<lparr>macros := t6,
         trace := trace s @ events_6 (macros s) t1 t2 t3 t4 t5 @ [Left FUNCS_HPP t6],
         notices := notices s @ ns_notices t2\<rparr>)"
proof (cases "env VMA_H (guard_def (macros s))")
  case None
  from run_fail_1 [where env = env, OF assms None] show ?thesis by (rule fail1)
next
  case e1: (Some t1)
  show ?thesis
  proof (cases "env VULKAN_HPP t1")
    case None
    from run_fail_2 [where env = env, OF assms e1 None] show ?thesis by (rule fail2)
  next
    case e2: (Some t2)
    show ?thesis
    proof (cases "env ENUMS_HPP (ns_defs t2)")
      case None
      from run_fail_3 [where env = env, OF assms e1 e2 None] show ?thesis by (rule fail3)
    next
      case e3: (Some t3)
      show ?thesis
      proof (cases "env HANDLES_HPP t3")
        case None
        from run_fail_4 [where env = env, OF assms e1 e2 e3 None] show ?thesis by (rule fail4)
      next
        case e4: (Some t4)
        show ?thesis
        proof (cases "env STRUCTS_HPP t4")
          case None
          from run_fail_5 [where env = env, OF assms e1 e2 e3 e4 None] show ?thesis by (rule fail5)
        next
          case e5: (Some t5)
          show ?thesis
          proof (cases "env FUNCS_HPP t5")
            case None
            from run_fail_6 [where env = env, OF assms e1 e2 e3 e4 e5 None] show ?thesis by (rule fail6)
          next
            case e6: (Some t6)
            from e1 e2 e3 e4 e5 e6 run_ok [where env = env, OF assms e1 e2 e3 e4 e5 e6] show ?thesis by (rule ok)
          qed
        qed
      qed
    qed
  qed
qed

lemma process_header_Inr:
  assumes "macros s GUARD = None" and "process_header env s = Inr s'"
  obtains t1 t2 t3 t4 t5 t6 where
      "env VMA_H (guard_def (macros s)) = Some t1"
      "env VULKAN_HPP t1 = Some t2"
      "env ENUMS_HPP (ns_defs t2) = Some t3"
      "env HANDLES_HPP t3 = Some t4"
      "env STRUCTS_HPP t4 = Some t5"
      "env FUNCS_HPP t5 = Some t6"
      "s' = s\<lparr>macros := t6,
         trace := trace s @ events_6 (macros s) t1 t2 t3 t4 t5 @ [Left FUNCS_HPP t6],
         notices := notices s @ ns_notices t2\<rparr>"
  using assms(1)
proof (cases rule: process_header_cases [where env = env])
  case (ok t1 t2 t3 t4 t5 t6)
  with assms(2) that show ?thesis by simp
qed (use assms(2) in simp_all)

lemma own_events_append [simp]:
  "own_events s (s\<lparr>macros := t, trace := trace s @ es\<rparr>) = es"
  "own_events s (s\<lparr>macros := t, trace := trace s @ es, notices := ns\<rparr>) = es"
  by (simp_all add: own_events_def)

lemma own_notices_append [simp]:
  "own_notices s (s\<lparr>macros := t, trace := es\<rparr>) = []"
  "own_notices s (s\<lparr>macros := t, trace := es, notices := notices s @ ns\<rparr>) = ns"
  by (simp_all add: own_notices_def)

lemma own_events_self [simp]: "own_events s s = []"
  by (simp add: own_events_def)

lemma own_notices_self [simp]: "own_notices s s = []"
  by (simp add: own_notices_def)

lemma plain_env_run:
  "m GUARD = None \<Longrightarrow> process_header plain_env (start m) =
     Inr \<lparr>macros = ns_defs (guard_def m),
          trace = events_6 m (guard_def m) (guard_def m) (ns_defs (guard_def m))
                    (ns_defs (guard_def m)) (ns_defs (guard_def m))
                  @ [Left FUNCS_HPP (ns_defs (guard_def m))],
          notices = ns_notices (guard_def m)\<rparr>"
  using run_ok [where env = plain_env and s = "start m"]
  by (simp add: plain_env_def start_def)

lemma enclosing_wrappers:
  "map enclosing (map (Include Quoted) wrapper_headers) = replicate 4 [[IfNDef GUARD]]"
  by (simp add: enclosing_def header_lines_eq wrapper_headers_def eval_nat_numeral)

lemma enclosing_ns_defines:
  "enclosing (Define NS (Obj [Ident ''vma''])) = [[IfCond (CNot (CDefined NS)), IfNDef GUARD]]
   \<and> enclosing (Define NSS (Obj [Ident STRINGIFY, LParen, Ident NS, RParen])) = [[IfNDef GUARD]]"
  by (simp add: enclosing_def header_lines_eq)

lemma header_directives:
  "included_names header_lines = dependency_headers @ wrapper_headers
   \<and> defined_names header_lines = [GUARD, NS, NSS]
   \<and> filter is_conditional header_lines = [IfNDef GUARD, IfCond (CNot (CDefined NS))]
   \<and> length (filter (\<lambda>l. l = EndIf) header_lines) = 2
   \<and> list_all (\<lambda>l. is_include l \<or> is_define l \<or> is_conditional l \<or> l = EndIf \<or> l = Blank)
        header_lines"
  by (simp add: header_lines_eq dependency_headers_def wrapper_headers_def)

lemma keeps_guard_run:
  assumes "process_header env s = Inr s'"
    and keep: "\<And>h t t'. env h t = Some t' \<Longrightarrow> t GUARD \<noteq> None \<Longrightarrow> t' GUARD \<noteq> None"
  shows "macros s' GUARD \<noteq> None"
proof (cases "macros s GUARD")
  case (Some d)
  with assms(1) show ?thesis by (simp add: process_header_skipped)
next
  case None
  from None assms(1) obtain t1 t2 t3 t4 t5 t6 where
    e: "env VMA_H (guard_def (macros s)) = Some t1"
      "env VULKAN_HPP t1 = Some t2"
      "env ENUMS_HPP (ns_defs t2) = Some t3"
      "env HANDLES_HPP t3 = Some t4"
      "env STRUCTS_HPP t4 = Some t5"
      "env FUNCS_HPP t5 = Some t6"
    and s': "s' = s\<lparr>macros := t6,
         trace := trace s @ events_6 (macros s) t1 t2 t3 t4 t5 @ [Left FUNCS_HPP t6],
         notices := notices s @ ns_notices t2\<rparr>"
    by (rule process_header_Inr)
  have "t1 GUARD \<noteq> None" by (rule keep [OF e(1)]) (simp add: guard_def_def)
  then have "t2 GUARD \<noteq> None" by (rule keep [OF e(2)])
  then have "ns_defs t2 GUARD \<noteq> None" by (simp add: ns_defs_def)
  then have "t3 GUARD \<noteq> None" by (rule keep [OF e(3)])
  then have "t4 GUARD \<noteq> None" by (rule keep [OF e(4)])
  then have "t5 GUARD \<noteq> None" by (rule keep [OF e(5)])
  then have "t6 GUARD \<noteq> None" by (rule keep [OF e(6)])
  with s' show ?thesis by simp
qed

section \<open>Macro expansion: fuel and arguments\<close>

lemma expand_Nil [simp]: "expand k M [] = Inr []"
  by (cases k) (simp_all add: expand_step_def)









lemma hsadd_Nil [simp]: "hsadd H [] = []"
  by (simp add: hsadd_def)



lemma map_fst_hsadd [simp]: "map fst (hsadd H E) = map fst E"
  by (simp add: hsadd_def comp_def)

lemma spell_from_append_Space: "spell_from sp (ts @ [Space]) = spell_from sp ts"
  by (induction ts arbitrary: sp) simp_all

lemma spell_arg_Space [simp]: "spell_arg (Space # ts) = spell_arg ts"
  by (simp add: spell_arg_def)

lemma spell_arg_append_Space [simp]: "spell_arg (ts @ [Space]) = spell_arg ts"
  by (induction ts) (simp_all add: spell_arg_def spell_from_append_Space)




section \<open>Sample runs\<close>

lemma plain_env_runs:
  "m GUARD = None \<Longrightarrow> \<exists>s'. process_header plain_env (start m) = Inr s'"
  by (simp add: plain_env_run)

lemma vulkan_env_simps:
  "vulkan_env VULKAN_HPP t = Some (t(STRINGIFY2 \<mapsto> Fn [''text''] [Hash, Ident ''text''],
      STRINGIFY \<mapsto> Fn [''text''] [Ident STRINGIFY2, LParen, Space, Ident ''text'', Space, RParen]))"
  "vulkan_env VMA_H t = Some t"
  "vulkan_env ENUMS_HPP t = Some t"
  "vulkan_env HANDLES_HPP t = Some t"
  "vulkan_env STRUCTS_HPP t = Some t"
  "vulkan_env FUNCS_HPP t = Some t"
  by (simp_all add: vulkan_env_def vulkan_lines_eq active_def emit_def complain_def redefinition_def)


lemma missing_vulkan_run:
  "m GUARD = None \<Longrightarrow> process_header missing_vulkan_env (start m) =
     Inl (IncludeFailed VULKAN_HPP,
          \<lparr>macros = guard_def m, trace = events_2 m (guard_def m), notices = []\<rparr>)"
  using run_fail_2 [where env = missing_vulkan_env and s = "start m" and ?t1.0 = "guard_def m"]
  by (simp add: missing_vulkan_env_def start_def)



lemma redefinition_cases:
  "redefinition old x m = [] \<or> (\<exists>d. redefinition old x m = [Redefinition x d m])"
  by (simp add: redefinition_def split: option.splits)

lemma enclosing_all:
  "enclosing (IfNDef GUARD) = [[]]
   \<and> enclosing (Define GUARD (Obj [])) = [[IfNDef GUARD]]
   \<and> enclosing (Include Quoted VMA_H) = [[IfNDef GUARD]]
   \<and> enclosing (Include Angled VULKAN_HPP) = [[IfNDef GUARD]]
   \<and> enclosing (IfCond (CNot (CDefined NS))) = [[IfNDef GUARD]]
   \<and> enclosing (Define NS (Obj [Ident ''vma''])) = [[IfCond (CNot (CDefined NS)), IfNDef GUARD]]
   \<and> enclosing (Define NSS (Obj [Ident STRINGIFY, LParen, Ident NS, RParen])) = [[IfNDef GUARD]]
   \<and> map enclosing (map (Include Quoted) wrapper_headers) = replicate 4 [[IfNDef GUARD]]
   \<and> enclosing EndIf = [[IfNDef GUARD], []]"
  by (simp add: enclosing_def header_lines_eq wrapper_headers_def eval_nat_numeral)

section \<open>The claims\<close>

text \<open>
  Claim C1. When the body of the header is processed (the guard is not yet defined) and
  no included file defines or undefines \<open>VMA_HPP_NAMESPACE\<close>: if the macro was not
  defined, the header defines it as \<open>vma\<close>; if the including project had defined it,
  the header defines nothing and that definition stays. In both cases it is the
  definition that each of the four wrapper headers starts from, and the one in force
  when the header has been processed.
\<close>

theorem namespace_macro_default_or_override:
  assumes "macros s GUARD = None"
    and "process_header env s = Inr s'"
    and "\<forall>h t t'. env h t = Some t' \<longrightarrow> t' NS = t NS"
  shows "macros s' NS = Some (case macros s NS of None \<Rightarrow> Obj [Ident ''vma''] | Some d \<Rightarrow> d)
       \<and> map (\<lambda>p. snd p NS) (filter (\<lambda>p. fst p \<in> set wrapper_headers) (entries (own_events s s')))
           = replicate 4 (Some (case macros s NS of None \<Rightarrow> Obj [Ident ''vma''] | Some d \<Rightarrow> d))
       \<and> filter (\<lambda>e. mark_of e = Def NS) (own_events s s')
           = (if macros s NS = None then [Defined NS (Obj [Ident ''vma''])] else [])"
proof -
  from assms(1,2) obtain t1 t2 t3 t4 t5 t6 where
    e: "env VMA_H (guard_def (macros s)) = Some t1"
      "env VULKAN_HPP t1 = Some t2"
      "env ENUMS_HPP (ns_defs t2) = Some t3"
      "env HANDLES_HPP t3 = Some t4"
      "env STRUCTS_HPP t4 = Some t5"
      "env FUNCS_HPP t5 = Some t6"
    and s': "s' = s\<lparr>macros := t6,
         trace := trace s @ events_6 (macros s) t1 t2 t3 t4 t5 @ [Left FUNCS_HPP t6],
         notices := notices s @ ns_notices t2\<rparr>"
    by (rule process_header_Inr)
  let ?ns = "case macros s NS of None \<Rightarrow> Obj [Ident ''vma''] | Some d \<Rightarrow> d"
  from assms(3) have keep: "t' NS = t NS" if "env h t = Some t'" for h t t'
    using that by blast
  from keep [OF e(1)] keep [OF e(2)] have t2: "t2 NS = macros s NS"
    by (simp add: guard_def_def)
  then have n: "ns_defs t2 NS = Some ?ns"
    by (cases "macros s NS") (simp_all add: ns_defs_def)
  from keep [OF e(3)] keep [OF e(4)] keep [OF e(5)] keep [OF e(6)] n
  have t: "t3 NS = Some ?ns" "t4 NS = Some ?ns" "t5 NS = Some ?ns" "t6 NS = Some ?ns"
    by simp_all
  from s' t have 1: "macros s' NS = Some ?ns" by simp
  from s' t n have 2: "map (\<lambda>p. snd p NS)
      (filter (\<lambda>p. fst p \<in> set wrapper_headers) (entries (own_events s s'))) = replicate 4 (Some ?ns)"
    by (cases "t2 NS") (simp_all add: events_defs ns_events_def wrapper_headers_def numeral_eq_Suc)
  from s' t2 have 3: "filter (\<lambda>e. mark_of e = Def NS) (own_events s s')
           = (if macros s NS = None then [Defined NS (Obj [Ident ''vma''])] else [])"
    by (simp add: events_defs ns_events_def)
  from 1 2 3 show ?thesis by simp
qed

text \<open>
  A translation unit that defines nothing gets \<open>vma\<close>; one that defines the macro as
  \<open>my_vma\<close> keeps that definition, in all four wrapper headers.
\<close>

theorem namespace_macro_default_or_override_witness:
  "(\<exists>s'. process_header plain_env (start Map.empty) = Inr s'
        \<and> macros s' NS = Some (Obj [Ident ''vma''])
        \<and> filter (\<lambda>e. mark_of e = Def NS) (own_events (start Map.empty) s')
            = [Defined NS (Obj [Ident ''vma''])])
   \<and> (\<exists>s'. process_header plain_env (start [NS \<mapsto> Obj [Ident ''my_vma'']]) = Inr s'
        \<and> macros s' NS = Some (Obj [Ident ''my_vma''])
        \<and> map (\<lambda>p. snd p NS) (filter (\<lambda>p. fst p \<in> set wrapper_headers)
              (entries (own_events (start [NS \<mapsto> Obj [Ident ''my_vma'']]) s')))
            = replicate 4 (Some (Obj [Ident ''my_vma'']))
        \<and> filter (\<lambda>e. mark_of e = Def NS) (own_events (start [NS \<mapsto> Obj [Ident ''my_vma'']]) s')
            = [])"
proof -
  have keep: "\<forall>h t t'. plain_env h t = Some t' \<longrightarrow> t' NS = t NS"
    by (simp add: plain_env_def)
  have "\<exists>s'. process_header plain_env (start Map.empty) = Inr s'
        \<and> macros s' NS = Some (Obj [Ident ''vma''])
        \<and> filter (\<lambda>e. mark_of e = Def NS) (own_events (start Map.empty) s')
            = [Defined NS (Obj [Ident ''vma''])]"
  proof -
    obtain s' where r: "process_header plain_env (start Map.empty) = Inr s'"
      using plain_env_runs [of Map.empty] by auto
    have g: "macros (start Map.empty) GUARD = None" by (simp add: start_def)
    from namespace_macro_default_or_override [OF g r keep] r show ?thesis
      by (simp add: start_def)
  qed
  moreover
  have "\<exists>s'. process_header plain_env (start [NS \<mapsto> Obj [Ident ''my_vma'']]) = Inr s'
        \<and> macros s' NS = Some (Obj [Ident ''my_vma''])
        \<and> map (\<lambda>p. snd p NS) (filter (\<lambda>p. fst p \<in> set wrapper_headers)
              (entries (own_events (start [NS \<mapsto> Obj [Ident ''my_vma'']]) s')))
            = replicate 4 (Some (Obj [Ident ''my_vma'']))
        \<and> filter (\<lambda>e. mark_of e = Def NS) (own_events (start [NS \<mapsto> Obj [Ident ''my_vma'']]) s')
            = []"
  proof -
    obtain s' where r: "process_header plain_env (start [NS \<mapsto> Obj [Ident ''my_vma'']]) = Inr s'"
      using plain_env_runs [of "[NS \<mapsto> Obj [Ident ''my_vma'']]"] by auto
    have g: "macros (start [NS \<mapsto> Obj [Ident ''my_vma'']]) GUARD = None" by (simp add: start_def)
    from namespace_macro_default_or_override [OF g r keep] r show ?thesis
      by (simp add: start_def)
  qed
  ultimately show ?thesis by (rule conjI)
qed




text \<open>
  Claim C3. Provided no included file undefines the guard
  \<open>VULKAN_MEMORY_ALLOCATOR_HPP\<close>: processing the header twice in a row is the same
  as processing it once; after a successful inclusion the guard is defined and a second
  inclusion returns the state as it is, with no event added; and so does any inclusion
  at a point where the guard is defined, whatever was processed in between.
\<close>

theorem reinclusion_is_noop:
  assumes "\<forall>h t t'. env h t = Some t' \<longrightarrow> t GUARD \<noteq> None \<longrightarrow> t' GUARD \<noteq> None"
  shows "(case process_header env s of Inl e \<Rightarrow> Inl e | Inr s1 \<Rightarrow> process_header env s1)
           = process_header env s
       \<and> (\<forall>s1. process_header env s = Inr s1 \<longrightarrow>
            macros s1 GUARD \<noteq> None \<and> process_header env s1 = Inr s1)
       \<and> (\<forall>s2. macros s2 GUARD \<noteq> None \<longrightarrow> process_header env s2 = Inr s2)"
proof -
  from assms have keep: "t' GUARD \<noteq> None" if "env h t = Some t'" "t GUARD \<noteq> None" for h t t'
    using that by blast
  have skip: "process_header env s2 = Inr s2" if "macros s2 GUARD \<noteq> None" for s2 :: pp_state
    using that by (auto simp add: process_header_skipped)
  have again: "macros s1 GUARD \<noteq> None \<and> process_header env s1 = Inr s1"
    if "process_header env s = Inr s1" for s1
  proof -
    from that keep have "macros s1 GUARD \<noteq> None" by (rule keeps_guard_run)
    with skip show ?thesis by simp
  qed
  have "(case process_header env s of Inl e \<Rightarrow> Inl e | Inr s1 \<Rightarrow> process_header env s1)
           = process_header env s"
  proof (cases "process_header env s")
    case (Inl e)
    then show ?thesis by simp
  next
    case (Inr s1)
    with again show ?thesis by simp
  qed
  with again skip show ?thesis by blast
qed

text \<open>
  A second inclusion right after the first, and one after \<open>VMA_HPP_NAMESPACE\<close> has been
  undefined in between, both leave the state as it is.
\<close>

theorem reinclusion_is_noop_witness:
  "\<exists>s1. process_header plain_env (start Map.empty) = Inr s1
      \<and> macros s1 GUARD = Some (Obj [])
      \<and> process_header plain_env s1 = Inr s1
      \<and> process_header plain_env (s1\<lparr>macros := (macros s1)(NS := None)\<rparr>)
          = Inr (s1\<lparr>macros := (macros s1)(NS := None)\<rparr>)"
proof -
  have keep: "\<forall>h t t'. plain_env h t = Some t' \<longrightarrow> t GUARD \<noteq> None \<longrightarrow> t' GUARD \<noteq> None"
    by (simp add: plain_env_def)
  note th = reinclusion_is_noop [OF keep, of "start Map.empty"]
  from th have again: "\<forall>s1. process_header plain_env (start Map.empty) = Inr s1 \<longrightarrow>
            macros s1 GUARD \<noteq> None \<and> process_header plain_env s1 = Inr s1"
    by (rule conjunct1 [OF conjunct2])
  from th have skip: "\<forall>s2. macros s2 GUARD \<noteq> None \<longrightarrow> process_header plain_env s2 = Inr s2"
    by (rule conjunct2 [OF conjunct2])
  obtain s1 where r: "process_header plain_env (start Map.empty) = Inr s1"
    and g: "macros s1 GUARD = Some (Obj [])"
    using plain_env_run [of Map.empty] by (simp add: ns_defs_def guard_def_def)
  from again r have a: "process_header plain_env s1 = Inr s1"
    by simp
  from g have "macros (s1\<lparr>macros := (macros s1)(NS := None)\<rparr>) GUARD \<noteq> None"
    by simp
  then have b: "process_header plain_env (s1\<lparr>macros := (macros s1)(NS := None)\<rparr>)
          = Inr (s1\<lparr>macros := (macros s1)(NS := None)\<rparr>)"
    by (rule skip [rule_format])
  from r g a b show ?thesis
    by (intro exI [of _ s1] conjI)
qed

text \<open>
  Claim C4, as stated, does not hold of the file: it has six \<open>#include\<close> lines and
  three \<open>#define\<close> lines, and its conditional lines are neither.
\<close>

theorem file_is_not_four_includes_and_one_macro:
  "\<not> (length (filter is_include header_lines) = 4
      \<and> length (filter is_define header_lines) = 1
      \<and> list_all (\<lambda>l. is_include l \<or> is_define l \<or> l = Blank) header_lines)"
  by (simp add: header_lines_eq)

text \<open>
  Claim C4, amended. Apart from blank lines the file is, in this order: the
  \<open>#ifndef\<close> and \<open>#define\<close> of the guard; the \<open>#include\<close> of the two
  dependencies; \<open>#if !defined(VMA_HPP_NAMESPACE)\<close>, the \<open>#define\<close> of the namespace
  macro as \<open>vma\<close> and its \<open>#endif\<close>; the \<open>#define\<close> of the stringified form; the
  \<open>#include\<close> of the four wrapper headers; the \<open>#endif\<close> of the guard. So it has
  six \<open>#include\<close> lines, three \<open>#define\<close> lines and two conditionals; the
  namespace macro is defined inside both conditionals, everything else inside the guard
  only; and there is nothing else.
\<close>

theorem file_content:
  "length (filter is_include header_lines) = 6
   \<and> included_names header_lines = dependency_headers @ wrapper_headers
   \<and> defined_names header_lines = [GUARD, NS, NSS]
   \<and> filter is_conditional header_lines = [IfNDef GUARD, IfCond (CNot (CDefined NS))]
   \<and> length (filter (\<lambda>l. l = EndIf) header_lines) = 2
   \<and> list_all (\<lambda>l. is_include l \<or> is_define l \<or> is_conditional l \<or> l = EndIf \<or> l = Blank)
        header_lines
   \<and> filter (\<lambda>l. l \<noteq> Blank) header_lines =
        [IfNDef GUARD,
         Define GUARD (Obj []),
         Include Quoted VMA_H,
         Include Angled VULKAN_HPP,
         IfCond (CNot (CDefined NS)),
         Define NS (Obj [Ident ''vma'']),
         EndIf,
         Define NSS (Obj [Ident STRINGIFY, LParen, Ident NS, RParen]),
         Include Quoted ENUMS_HPP,
         Include Quoted HANDLES_HPP,
         Include Quoted STRUCTS_HPP,
         Include Quoted FUNCS_HPP,
         EndIf]
   \<and> enclosing (IfNDef GUARD) = [[]]
   \<and> enclosing (Define GUARD (Obj [])) = [[IfNDef GUARD]]
   \<and> enclosing (Include Quoted VMA_H) = [[IfNDef GUARD]]
   \<and> enclosing (Include Angled VULKAN_HPP) = [[IfNDef GUARD]]
   \<and> enclosing (IfCond (CNot (CDefined NS))) = [[IfNDef GUARD]]
   \<and> enclosing (Define NS (Obj [Ident ''vma''])) = [[IfCond (CNot (CDefined NS)), IfNDef GUARD]]
   \<and> enclosing (Define NSS (Obj [Ident STRINGIFY, LParen, Ident NS, RParen])) = [[IfNDef GUARD]]
   \<and> map enclosing (map (Include Quoted) wrapper_headers) = replicate 4 [[IfNDef GUARD]]
   \<and> enclosing EndIf = [[IfNDef GUARD], []]"
proof -
  have "length (filter is_include header_lines) = 6"
    by (simp add: header_lines_eq)
  moreover have "filter (\<lambda>l. l \<noteq> Blank) header_lines =
        [IfNDef GUARD,
         Define GUARD (Obj []),
         Include Quoted VMA_H,
         Include Angled VULKAN_HPP,
         IfCond (CNot (CDefined NS)),
         Define NS (Obj [Ident ''vma'']),
         EndIf,
         Define NSS (Obj [Ident STRINGIFY, LParen, Ident NS, RParen]),
         Include Quoted ENUMS_HPP,
         Include Quoted HANDLES_HPP,
         Include Quoted STRUCTS_HPP,
         Include Quoted FUNCS_HPP,
         EndIf]"
    by (simp add: header_lines_eq)
  ultimately show ?thesis
    using header_directives enclosing_all by simp
qed

text \<open>
  Claim C5. Once the body of the header is entered, the files it enters are the two
  dependencies and the four wrapper headers, in the order of the file, whatever the
  macro table is; the only way a run ends earlier is that one of these inclusions
  fails, and it then has entered the files up to that one. In the text, each of the
  four wrapper inclusions lies inside the guard's \<open>#ifndef\<close> and inside no other
  conditional.
\<close>

theorem wrapper_headers_unconditional:
  assumes "macros s GUARD = None"
  shows "(case process_header env s of
            Inr s' \<Rightarrow> map fst (entries (own_events s s')) = dependency_headers @ wrapper_headers
          | Inl (e, s') \<Rightarrow>
              (\<exists>h. e = IncludeFailed h \<and> h \<in> set (dependency_headers @ wrapper_headers)
                 \<and> map fst (entries (own_events s s'))
                      = takeWhile (\<lambda>x. x \<noteq> h) (dependency_headers @ wrapper_headers) @ [h]))
       \<and> map enclosing (map (Include Quoted) wrapper_headers) = replicate 4 [[IfNDef GUARD]]"
proof -
  have "case process_header env s of
            Inr s' \<Rightarrow> map fst (entries (own_events s s')) = dependency_headers @ wrapper_headers
          | Inl (e, s') \<Rightarrow>
              (\<exists>h. e = IncludeFailed h \<and> h \<in> set (dependency_headers @ wrapper_headers)
                 \<and> map fst (entries (own_events s s'))
                      = takeWhile (\<lambda>x. x \<noteq> h) (dependency_headers @ wrapper_headers) @ [h])"
    using assms
  proof (cases rule: process_header_cases [where env = env])
    case fail1
    then show ?thesis
      by (simp add: events_defs ns_events_def dependency_headers_def wrapper_headers_def)
  next
    case (fail2 t1)
    then show ?thesis
      by (simp add: events_defs ns_events_def dependency_headers_def wrapper_headers_def)
  next
    case (fail3 t1 t2)
    then show ?thesis
      by (simp add: events_defs ns_events_def dependency_headers_def wrapper_headers_def)
  next
    case (fail4 t1 t2 t3)
    then show ?thesis
      by (simp add: events_defs ns_events_def dependency_headers_def wrapper_headers_def)
  next
    case (fail5 t1 t2 t3 t4)
    then show ?thesis
      by (simp add: events_defs ns_events_def dependency_headers_def wrapper_headers_def)
  next
    case (fail6 t1 t2 t3 t4 t5)
    then show ?thesis
      by (simp add: events_defs ns_events_def dependency_headers_def wrapper_headers_def)
  next
    case (ok t1 t2 t3 t4 t5 t6)
    then show ?thesis
      by (simp add: events_defs ns_events_def dependency_headers_def wrapper_headers_def)
  qed
  with enclosing_wrappers show ?thesis by simp
qed

text \<open>
  With every file present all six are entered; with the Vulkan C++ binding missing the
  run stops there.
\<close>

theorem wrapper_headers_unconditional_witness:
  "(\<exists>s'. process_header plain_env (start Map.empty) = Inr s'
        \<and> map fst (entries (own_events (start Map.empty) s'))
            = [VMA_H, VULKAN_HPP, ENUMS_HPP, HANDLES_HPP, STRUCTS_HPP, FUNCS_HPP])
   \<and> (\<exists>s'. process_header missing_vulkan_env (start Map.empty) = Inl (IncludeFailed VULKAN_HPP, s')
        \<and> map fst (entries (own_events (start Map.empty) s')) = [VMA_H, VULKAN_HPP])"
proof -
  have g: "macros (start Map.empty) GUARD = None" by (simp add: start_def)
  obtain s' where r: "process_header plain_env (start Map.empty) = Inr s'"
    using plain_env_runs [of Map.empty] by auto
  with wrapper_headers_unconditional [OF g, of plain_env]
  have "map fst (entries (own_events (start Map.empty) s'))
            = [VMA_H, VULKAN_HPP, ENUMS_HPP, HANDLES_HPP, STRUCTS_HPP, FUNCS_HPP]"
    by (simp add: dependency_headers_def wrapper_headers_def)
  with r have 1: "\<exists>s'. process_header plain_env (start Map.empty) = Inr s'
        \<and> map fst (entries (own_events (start Map.empty) s'))
            = [VMA_H, VULKAN_HPP, ENUMS_HPP, HANDLES_HPP, STRUCTS_HPP, FUNCS_HPP]"
    by (intro exI [of _ s'] conjI)
  obtain s'' where f: "process_header missing_vulkan_env (start Map.empty)
      = Inl (IncludeFailed VULKAN_HPP, s'')"
    using missing_vulkan_run [of Map.empty] by auto
  with wrapper_headers_unconditional [OF g, of missing_vulkan_env]
  have "map fst (entries (own_events (start Map.empty) s'')) = [VMA_H, VULKAN_HPP]"
    by (simp add: dependency_headers_def wrapper_headers_def)
  with f have 2: "\<exists>s'. process_header missing_vulkan_env (start Map.empty)
        = Inl (IncludeFailed VULKAN_HPP, s')
        \<and> map fst (entries (own_events (start Map.empty) s')) = [VMA_H, VULKAN_HPP]"
    by (intro exI [of _ s''] conjI)
  from 1 2 show ?thesis by (rule conjI)
qed

text \<open>
  Claim C6. In a successful run of the body, \<open>vk_mem_alloc.h\<close> and then
  \<open>vulkan/vulkan.hpp\<close> are entered and left before either namespace macro is defined
  and before any wrapper header is entered. The file includes just these six files, and
  its only conditionals are the guard and the test whether \<open>VMA_HPP_NAMESPACE\<close> is
  defined: none tests a version.
\<close>

theorem dependencies_included_first:
  assumes "macros s GUARD = None"
    and "process_header env s = Inr s'"
  shows "(\<exists>d. (d = [] \<or> d = [Def NS])
            \<and> marks (own_events s s') =
                [Def GUARD, Enter VMA_H, Leave VMA_H, Enter VULKAN_HPP, Leave VULKAN_HPP]
                @ d @
                [Def NSS, Enter ENUMS_HPP, Leave ENUMS_HPP, Enter HANDLES_HPP, Leave HANDLES_HPP,
                 Enter STRUCTS_HPP, Leave STRUCTS_HPP, Enter FUNCS_HPP, Leave FUNCS_HPP])
       \<and> included_names header_lines = dependency_headers @ wrapper_headers
       \<and> filter is_conditional header_lines = [IfNDef GUARD, IfCond (CNot (CDefined NS))]"
proof -
  from assms obtain t1 t2 t3 t4 t5 t6 where
    s': "s' = s\<lparr>macros := t6,
         trace := trace s @ events_6 (macros s) t1 t2 t3 t4 t5 @ [Left FUNCS_HPP t6],
         notices := notices s @ ns_notices t2\<rparr>"
    by (rule process_header_Inr)
  define d where "d = (if t2 NS = None then [Def NS] else [])"
  have "d = [] \<or> d = [Def NS]" by (simp add: d_def)
  moreover from s' have "marks (own_events s s') =
                [Def GUARD, Enter VMA_H, Leave VMA_H, Enter VULKAN_HPP, Leave VULKAN_HPP]
                @ d @
                [Def NSS, Enter ENUMS_HPP, Leave ENUMS_HPP, Enter HANDLES_HPP, Leave HANDLES_HPP,
                 Enter STRUCTS_HPP, Leave STRUCTS_HPP, Enter FUNCS_HPP, Leave FUNCS_HPP]"
    by (simp add: d_def marks_def events_defs ns_events_def)
  ultimately show ?thesis using header_directives by blast
qed

text \<open>
  A run in which the project has defined the namespace macro itself.
\<close>

theorem dependencies_included_first_witness:
  "\<exists>s'. process_header plain_env (start [NS \<mapsto> Obj [Ident ''my_vma'']]) = Inr s'
      \<and> take 5 (marks (own_events (start [NS \<mapsto> Obj [Ident ''my_vma'']]) s'))
          = [Def GUARD, Enter VMA_H, Leave VMA_H, Enter VULKAN_HPP, Leave VULKAN_HPP]
      \<and> Enter ENUMS_HPP \<in> set (drop 5 (marks (own_events (start [NS \<mapsto> Obj [Ident ''my_vma'']]) s')))"
proof -
  let ?s = "start [NS \<mapsto> Obj [Ident ''my_vma'']]"
  have g: "macros ?s GUARD = None" by (simp add: start_def)
  obtain s' where r: "process_header plain_env ?s = Inr s'"
    using plain_env_runs [of "[NS \<mapsto> Obj [Ident ''my_vma'']]"] by auto
  from dependencies_included_first [OF g r]
  obtain d where "marks (own_events ?s s') =
                [Def GUARD, Enter VMA_H, Leave VMA_H, Enter VULKAN_HPP, Leave VULKAN_HPP]
                @ d @
                [Def NSS, Enter ENUMS_HPP, Leave ENUMS_HPP, Enter HANDLES_HPP, Leave HANDLES_HPP,
                 Enter STRUCTS_HPP, Leave STRUCTS_HPP, Enter FUNCS_HPP, Leave FUNCS_HPP]"
    by (elim conjE exE)
  then have "take 5 (marks (own_events ?s s'))
          = [Def GUARD, Enter VMA_H, Leave VMA_H, Enter VULKAN_HPP, Leave VULKAN_HPP]
      \<and> Enter ENUMS_HPP \<in> set (drop 5 (marks (own_events ?s s')))"
    by simp
  with r show ?thesis
    by (intro exI [of _ s'] conjI) simp_all
qed

text \<open>
  Claim C7, as stated for every build configuration, does not hold: in a project that
  has defined \<open>VMA_HPP_NAMESPACE_STRING\<close> itself, with another replacement list,
  line 11 of the header redefines it, which the translator diagnoses at that line.
\<close>

theorem redefinition_diagnosed_at_line_11:
  "\<exists>s'. process_header plain_env (start [NSS \<mapsto> Obj [StrLit ''mine'']]) = Inr s'
      \<and> own_notices (start [NSS \<mapsto> Obj [StrLit ''mine'']]) s'
          = [Redefinition NSS (Obj [StrLit ''mine''])
               (Obj [Ident STRINGIFY, LParen, Ident NS, RParen])]"
  using plain_env_run [of "[NSS \<mapsto> Obj [StrLit ''mine'']]"]
  by (simp add: own_notices_def start_def ns_notices_def redefinition_def guard_def_def)

text \<open>
  Claim C7, amended. In every environment and from every state, a run of the header
  emits no warning of its own, and when it fails, the error is the failure of one of
  its six inclusions. The only diagnostic at a line of the header is the one for the
  redefinition of \<open>VMA_HPP_NAMESPACE_STRING\<close> on line 11: it is issued exactly when
  the token is defined with another replacement list in the table the Vulkan C++
  binding leaves behind, and at most once. The file has no \<open>#error\<close>, no
  \<open>#warning\<close> and no \<open>static_assert\<close>, no line of program text at all, and its
  conditionals test only whether the guard and \<open>VMA_HPP_NAMESPACE\<close> are defined.
\<close>

theorem only_redefinition_diagnosed:
  "(case process_header env s of
      Inr s' \<Rightarrow>
        filter (\<lambda>e. mark_of e = Warning_mark) (own_events s s') = []
        \<and> (own_notices s s' = []
           \<or> (\<exists>d. own_notices s s'
                 = [Redefinition NSS d (Obj [Ident STRINGIFY, LParen, Ident NS, RParen])]))
    | Inl (e, s') \<Rightarrow>
        (\<exists>h. e = IncludeFailed h \<and> h \<in> set (dependency_headers @ wrapper_headers))
        \<and> filter (\<lambda>e. mark_of e = Warning_mark) (own_events s s') = []
        \<and> (own_notices s s' = []
           \<or> (\<exists>d. own_notices s s'
                 = [Redefinition NSS d (Obj [Ident STRINGIFY, LParen, Ident NS, RParen])])))
   \<and> (\<forall>s' t. process_header env s = Inr s' \<longrightarrow> Left VULKAN_HPP t \<in> set (own_events s s') \<longrightarrow>
         own_notices s s'
           = redefinition (t NSS) NSS (Obj [Ident STRINGIFY, LParen, Ident NS, RParen]))
   \<and> filter is_diagnostic header_lines = []
   \<and> filter is_conditional header_lines = [IfNDef GUARD, IfCond (CNot (CDefined NS))]
   \<and> list_all (\<lambda>l. is_include l \<or> is_define l \<or> is_conditional l \<or> l = EndIf \<or> l = Blank)
        header_lines"
proof -
  let ?nss = "Obj [Ident STRINGIFY, LParen, Ident NS, RParen]"
  have ns: "ns_notices t = [] \<or> (\<exists>d. ns_notices t = [Redefinition NSS d ?nss])" for t
    unfolding ns_notices_def by (rule redefinition_cases)
  have 1: "case process_header env s of
      Inr s' \<Rightarrow>
        filter (\<lambda>e. mark_of e = Warning_mark) (own_events s s') = []
        \<and> (own_notices s s' = [] \<or> (\<exists>d. own_notices s s' = [Redefinition NSS d ?nss]))
    | Inl (e, s') \<Rightarrow>
        (\<exists>h. e = IncludeFailed h \<and> h \<in> set (dependency_headers @ wrapper_headers))
        \<and> filter (\<lambda>e. mark_of e = Warning_mark) (own_events s s') = []
        \<and> (own_notices s s' = [] \<or> (\<exists>d. own_notices s s' = [Redefinition NSS d ?nss]))"
  proof (cases "macros s GUARD")
    case (Some d)
    then show ?thesis by (simp add: process_header_skipped)
  next
    case None
    then show ?thesis
    proof (cases rule: process_header_cases [where env = env])
      case fail1
      then show ?thesis
        by (simp add: events_defs ns_events_def dependency_headers_def wrapper_headers_def)
    next
      case (fail2 t1)
      then show ?thesis
        by (simp add: events_defs ns_events_def dependency_headers_def wrapper_headers_def)
    next
      case (fail3 t1 t2)
      with ns [of t2] show ?thesis
        by (simp add: events_defs ns_events_def dependency_headers_def wrapper_headers_def)
    next
      case (fail4 t1 t2 t3)
      with ns [of t2] show ?thesis
        by (simp add: events_defs ns_events_def dependency_headers_def wrapper_headers_def)
    next
      case (fail5 t1 t2 t3 t4)
      with ns [of t2] show ?thesis
        by (simp add: events_defs ns_events_def dependency_headers_def wrapper_headers_def)
    next
      case (fail6 t1 t2 t3 t4 t5)
      with ns [of t2] show ?thesis
        by (simp add: events_defs ns_events_def dependency_headers_def wrapper_headers_def)
    next
      case (ok t1 t2 t3 t4 t5 t6)
      with ns [of t2] show ?thesis
        by (simp add: events_defs ns_events_def)
    qed
  qed
  have 2: "own_notices s s' = redefinition (t NSS) NSS ?nss"
    if run: "process_header env s = Inr s'" and left: "Left VULKAN_HPP t \<in> set (own_events s s')"
    for s' t
  proof (cases "macros s GUARD")
    case (Some d)
    with run left show ?thesis by (simp add: process_header_skipped)
  next
    case None
    from None run obtain t1 t2 t3 t4 t5 t6 where
      s': "s' = s\<lparr>macros := t6,
         trace := trace s @ events_6 (macros s) t1 t2 t3 t4 t5 @ [Left FUNCS_HPP t6],
         notices := notices s @ ns_notices t2\<rparr>"
      by (rule process_header_Inr)
    from s' left have "t = t2"
      by (simp add: events_defs ns_events_def split: if_splits)
    with s' show ?thesis
      by (simp add: ns_notices_def)
  qed
  have 3: "filter is_diagnostic header_lines = []"
    by (simp add: header_lines_eq)
  have all2: "\<forall>s' t. process_header env s = Inr s' \<longrightarrow> Left VULKAN_HPP t \<in> set (own_events s s') \<longrightarrow>
         own_notices s s' = redefinition (t NSS) NSS ?nss"
    by (intro allI impI 2)
  from header_directives
  have 4: "filter is_conditional header_lines = [IfNDef GUARD, IfCond (CNot (CDefined NS))]"
    and 5: "list_all (\<lambda>l. is_include l \<or> is_define l \<or> is_conditional l \<or> l = EndIf \<or> l = Blank)
        header_lines"
    by simp_all
  from 1 all2 3 4 5 show ?thesis
    by (intro conjI)
qed

text \<open>
  No notice when the project has not defined the token, or has defined it with the
  header's own replacement list; one notice when the project's list differs, be it only
  in white space.
\<close>

theorem only_redefinition_diagnosed_witness:
  "(\<exists>s'. process_header plain_env
            (start [NSS \<mapsto> Obj [Ident STRINGIFY, LParen, Ident NS, RParen]]) = Inr s'
        \<and> own_notices (start [NSS \<mapsto> Obj [Ident STRINGIFY, LParen, Ident NS, RParen]]) s' = [])
   \<and> (\<exists>s'. process_header plain_env (start Map.empty) = Inr s'
        \<and> own_notices (start Map.empty) s' = [])
   \<and> (\<exists>s'. process_header plain_env
            (start [NSS \<mapsto> Obj [Ident STRINGIFY, LParen, Space, Ident NS, Space, RParen]]) = Inr s'
        \<and> own_notices (start [NSS \<mapsto> Obj [Ident STRINGIFY, LParen, Space, Ident NS, Space, RParen]]) s'
            = [Redefinition NSS (Obj [Ident STRINGIFY, LParen, Space, Ident NS, Space, RParen])
                 (Obj [Ident STRINGIFY, LParen, Ident NS, RParen])])"
proof -
  let ?nss = "Obj [Ident STRINGIFY, LParen, Ident NS, RParen]"
  have w: "\<exists>s'. process_header plain_env (start m) = Inr s'
      \<and> own_notices (start m) s' = redefinition (m NSS) NSS ?nss"
    if g: "m GUARD = None" for m
  proof -
    let ?s' = "\<lparr>macros = ns_defs (guard_def m),
          trace = events_6 m (guard_def m) (guard_def m) (ns_defs (guard_def m))
                    (ns_defs (guard_def m)) (ns_defs (guard_def m))
                  @ [Left FUNCS_HPP (ns_defs (guard_def m))],
          notices = ns_notices (guard_def m)\<rparr>"
    from g have r: "process_header plain_env (start m) = Inr ?s'"
      by (rule plain_env_run)
    have l: "Left VULKAN_HPP (guard_def m) \<in> set (own_events (start m) ?s')"
      by (simp add: own_events_def start_def events_defs)
    from only_redefinition_diagnosed [where env = plain_env and s = "start m"]
    have "\<forall>s' t. process_header plain_env (start m) = Inr s' \<longrightarrow>
        Left VULKAN_HPP t \<in> set (own_events (start m) s') \<longrightarrow>
        own_notices (start m) s' = redefinition (t NSS) NSS ?nss"
      by (rule conjunct1 [OF conjunct2])
    from this [rule_format, OF r l]
    have "own_notices (start m) ?s' = redefinition (m NSS) NSS ?nss"
      by (simp add: guard_def_def)
    with r show ?thesis
      by (intro exI [of _ ?s'] conjI)
  qed
  from w [of "[NSS \<mapsto> ?nss]"] w [of Map.empty]
    w [of "[NSS \<mapsto> Obj [Ident STRINGIFY, LParen, Space, Ident NS, Space, RParen]]"]
  show ?thesis
    by (simp add: redefinition_def)
qed

text \<open>
  Claim C8. In every environment and from every state, a run of the header hands no
  line of program text to the compiler, whether it succeeds or fails. The file has no
  line of text: each line is blank or an \<open>#include\<close>, a \<open>#define\<close>, a conditional
  or an \<open>#endif\<close>.
\<close>

theorem no_declarations_of_its_own:
  "(case process_header env s of
      Inr s' \<Rightarrow> filter (\<lambda>e. mark_of e = Code_mark) (own_events s s') = []
    | Inl (e, s') \<Rightarrow> filter (\<lambda>e. mark_of e = Code_mark) (own_events s s') = [])
   \<and> filter is_text header_lines = []
   \<and> list_all (\<lambda>l. is_include l \<or> is_define l \<or> is_conditional l \<or> l = EndIf \<or> l = Blank)
        header_lines"
proof -
  have "case process_header env s of
      Inr s' \<Rightarrow> filter (\<lambda>e. mark_of e = Code_mark) (own_events s s') = []
    | Inl (e, s') \<Rightarrow> filter (\<lambda>e. mark_of e = Code_mark) (own_events s s') = []"
  proof (cases "macros s GUARD")
    case (Some d)
    then show ?thesis by (simp add: process_header_skipped)
  next
    case None
    then show ?thesis
    proof (cases rule: process_header_cases [where env = env])
      case fail1
      then show ?thesis by (simp add: events_defs ns_events_def)
    next
      case (fail2 t1)
      then show ?thesis by (simp add: events_defs ns_events_def)
    next
      case (fail3 t1 t2)
      then show ?thesis by (simp add: events_defs ns_events_def)
    next
      case (fail4 t1 t2 t3)
      then show ?thesis by (simp add: events_defs ns_events_def)
    next
      case (fail5 t1 t2 t3 t4)
      then show ?thesis by (simp add: events_defs ns_events_def)
    next
      case (fail6 t1 t2 t3 t4 t5)
      then show ?thesis by (simp add: events_defs ns_events_def)
    next
      case (ok t1 t2 t3 t4 t5 t6)
      then show ?thesis by (simp add: events_defs ns_events_def)
    qed
  qed
  moreover have "filter is_text header_lines = []"
    by (simp add: header_lines_eq)
  ultimately show ?thesis using header_directives by simp
qed

text \<open>
  Claim C9. In a successful run of the body, whatever \<open>VMA_HPP_NAMESPACE_STRING\<close>
  was before, the header defines it, once, as
  \<open>VULKAN_HPP_STRINGIFY(VMA_HPP_NAMESPACE)\<close>, and that is its definition when the
  first wrapper header is entered. In the text, this \<open>#define\<close> lies inside the guard
  only, while the \<open>#define\<close> of \<open>VMA_HPP_NAMESPACE\<close> also lies inside
  \<open>#if !defined(VMA_HPP_NAMESPACE)\<close>.
\<close>

theorem namespace_string_always_redefined:
  assumes "macros s GUARD = None"
    and "process_header env s = Inr s'"
  shows "filter (\<lambda>e. mark_of e = Def NSS) (own_events s s')
           = [Defined NSS (Obj [Ident STRINGIFY, LParen, Ident NS, RParen])]
       \<and> map (\<lambda>p. snd p NSS) (filter (\<lambda>p. fst p = ENUMS_HPP) (entries (own_events s s')))
           = [Some (Obj [Ident STRINGIFY, LParen, Ident NS, RParen])]
       \<and> enclosing (Define NSS (Obj [Ident STRINGIFY, LParen, Ident NS, RParen])) = [[IfNDef GUARD]]
       \<and> enclosing (Define NS (Obj [Ident ''vma''])) = [[IfCond (CNot (CDefined NS)), IfNDef GUARD]]"
proof -
  from assms obtain t1 t2 t3 t4 t5 t6 where
    s': "s' = s\<lparr>macros := t6,
         trace := trace s @ events_6 (macros s) t1 t2 t3 t4 t5 @ [Left FUNCS_HPP t6],
         notices := notices s @ ns_notices t2\<rparr>"
    by (rule process_header_Inr)
  from s' have "filter (\<lambda>e. mark_of e = Def NSS) (own_events s s')
           = [Defined NSS (Obj [Ident STRINGIFY, LParen, Ident NS, RParen])]"
    by (simp add: events_defs ns_events_def)
  moreover from s' have
    "map (\<lambda>p. snd p NSS) (filter (\<lambda>p. fst p = ENUMS_HPP) (entries (own_events s s')))
           = [Some (Obj [Ident STRINGIFY, LParen, Ident NS, RParen])]"
    by (cases "t2 NS") (simp_all add: events_defs ns_events_def ns_defs_def)
  ultimately show ?thesis using enclosing_ns_defines by simp
qed

text \<open>
  A project that defines \<open>VMA_HPP_NAMESPACE_STRING\<close> itself finds it redefined when the
  first wrapper header is entered.
\<close>

theorem namespace_string_always_redefined_witness:
  "\<exists>s'. process_header plain_env (start [NSS \<mapsto> Obj [StrLit ''mine'']]) = Inr s'
      \<and> map (\<lambda>p. snd p NSS) (filter (\<lambda>p. fst p = ENUMS_HPP)
            (entries (own_events (start [NSS \<mapsto> Obj [StrLit ''mine'']]) s')))
          = [Some (Obj [Ident STRINGIFY, LParen, Ident NS, RParen])]"
proof -
  let ?s = "start [NSS \<mapsto> Obj [StrLit ''mine'']]"
  have g: "macros ?s GUARD = None" by (simp add: start_def)
  obtain s' where r: "process_header plain_env ?s = Inr s'"
    using plain_env_runs [of "[NSS \<mapsto> Obj [StrLit ''mine'']]"] by auto
  from namespace_string_always_redefined [OF g r]
  have "map (\<lambda>p. snd p NSS) (filter (\<lambda>p. fst p = ENUMS_HPP) (entries (own_events ?s s')))
          = [Some (Obj [Ident STRINGIFY, LParen, Ident NS, RParen])]"
    by (rule conjunct1 [OF conjunct2])
  with r show ?thesis
    by (intro exI [of _ s'] conjI)
qed

text \<open>
  Claim C10. In a successful run of the body, provided no wrapper header undefines
  \<open>VMA_HPP_NAMESPACE\<close> or \<open>VMA_HPP_NAMESPACE_STRING\<close>: the four wrapper headers are
  entered in the order of the file, each from a table in which both macros are defined,
  and both dependencies have been left before the first of them is entered.
\<close>

theorem wrappers_see_macros_and_dependencies:
  assumes "macros s GUARD = None"
    and "process_header env s = Inr s'"
    and "\<forall>h t t'. h \<in> set wrapper_headers \<longrightarrow> env h t = Some t' \<longrightarrow>
           (t NS \<noteq> None \<longrightarrow> t' NS \<noteq> None) \<and> (t NSS \<noteq> None \<longrightarrow> t' NSS \<noteq> None)"
  shows "map fst (filter (\<lambda>p. fst p \<in> set wrapper_headers) (entries (own_events s s')))
           = wrapper_headers
       \<and> list_all (\<lambda>p. snd p NS \<noteq> None \<and> snd p NSS \<noteq> None)
           (filter (\<lambda>p. fst p \<in> set wrapper_headers) (entries (own_events s s')))
       \<and> filter (\<lambda>m. m \<in> set (map Leave dependency_headers) \<or> m \<in> set (map Enter wrapper_headers))
           (marks (own_events s s'))
           = map Leave dependency_headers @ map Enter wrapper_headers"
proof -
  from assms(1,2) obtain t1 t2 t3 t4 t5 t6 where
    e: "env VMA_H (guard_def (macros s)) = Some t1"
      "env VULKAN_HPP t1 = Some t2"
      "env ENUMS_HPP (ns_defs t2) = Some t3"
      "env HANDLES_HPP t3 = Some t4"
      "env STRUCTS_HPP t4 = Some t5"
      "env FUNCS_HPP t5 = Some t6"
    and s': "s' = s\<lparr>macros := t6,
         trace := trace s @ events_6 (macros s) t1 t2 t3 t4 t5 @ [Left FUNCS_HPP t6],
         notices := notices s @ ns_notices t2\<rparr>"
    by (rule process_header_Inr)
  from assms(3) have keep: "t' NS \<noteq> None \<and> t' NSS \<noteq> None"
    if "h \<in> set wrapper_headers" "env h t = Some t'" "t NS \<noteq> None \<and> t NSS \<noteq> None" for h t t'
    using that by blast
  have d2: "ns_defs t2 NS \<noteq> None \<and> ns_defs t2 NSS \<noteq> None"
    by (simp add: ns_defs_def)
  have d3: "t3 NS \<noteq> None \<and> t3 NSS \<noteq> None"
    by (rule keep [OF _ e(3) d2]) (simp add: wrapper_headers_def)
  have d4: "t4 NS \<noteq> None \<and> t4 NSS \<noteq> None"
    by (rule keep [OF _ e(4) d3]) (simp add: wrapper_headers_def)
  have d5: "t5 NS \<noteq> None \<and> t5 NSS \<noteq> None"
    by (rule keep [OF _ e(5) d4]) (simp add: wrapper_headers_def)
  from s' have 1: "map fst (filter (\<lambda>p. fst p \<in> set wrapper_headers) (entries (own_events s s')))
           = wrapper_headers"
    by (simp add: events_defs ns_events_def wrapper_headers_def)
  from s' d2 d3 d4 d5 have 2: "list_all (\<lambda>p. snd p NS \<noteq> None \<and> snd p NSS \<noteq> None)
           (filter (\<lambda>p. fst p \<in> set wrapper_headers) (entries (own_events s s')))"
    by (simp add: events_defs ns_events_def wrapper_headers_def)
  from s' have 3: "filter (\<lambda>m. m \<in> set (map Leave dependency_headers) \<or> m \<in> set (map Enter wrapper_headers))
           (marks (own_events s s'))
           = map Leave dependency_headers @ map Enter wrapper_headers"
    by (simp add: marks_def events_defs ns_events_def wrapper_headers_def dependency_headers_def)
  from 1 2 3 show ?thesis by simp
qed

text \<open>
  A run with the stringification macros of the Vulkan C++ binding defined.
\<close>

theorem wrappers_see_macros_and_dependencies_witness:
  "\<exists>s'. process_header vulkan_env (start Map.empty) = Inr s'
      \<and> map fst (filter (\<lambda>p. fst p \<in> set wrapper_headers) (entries (own_events (start Map.empty) s')))
          = wrapper_headers
      \<and> list_all (\<lambda>p. snd p NS \<noteq> None \<and> snd p NSS \<noteq> None)
          (filter (\<lambda>p. fst p \<in> set wrapper_headers) (entries (own_events (start Map.empty) s')))"
proof -
  let ?s = "start Map.empty"
  have g: "macros ?s GUARD = None" by (simp add: start_def)
  have "\<exists>s'. process_header vulkan_env ?s = Inr s'"
    using run_ok [where env = vulkan_env and s = ?s, OF g vulkan_env_simps(2)
      vulkan_env_simps(1) vulkan_env_simps(3) vulkan_env_simps(4) vulkan_env_simps(5)
      vulkan_env_simps(6)]
    by simp
  then obtain s' where r: "process_header vulkan_env ?s = Inr s'" ..
  have keep: "\<forall>h t t'. h \<in> set wrapper_headers \<longrightarrow> vulkan_env h t = Some t' \<longrightarrow>
           (t NS \<noteq> None \<longrightarrow> t' NS \<noteq> None) \<and> (t NSS \<noteq> None \<longrightarrow> t' NSS \<noteq> None)"
  proof (intro allI impI)
    fix h t t'
    assume "h \<in> set wrapper_headers" and "vulkan_env h t = Some t'"
    then have "t' = t"
      by (auto simp add: wrapper_headers_def vulkan_env_simps)
    then show "(t NS \<noteq> None \<longrightarrow> t' NS \<noteq> None) \<and> (t NSS \<noteq> None \<longrightarrow> t' NSS \<noteq> None)"
      by simp
  qed
  note th = wrappers_see_macros_and_dependencies [OF g r keep]
  from th have 1: "map fst (filter (\<lambda>p. fst p \<in> set wrapper_headers)
      (entries (own_events ?s s'))) = wrapper_headers"
    by (rule conjunct1)
  from th have 2: "list_all (\<lambda>p. snd p NS \<noteq> None \<and> snd p NSS \<noteq> None)
          (filter (\<lambda>p. fst p \<in> set wrapper_headers) (entries (own_events ?s s')))"
    by (rule conjunct1 [OF conjunct2])
  from r 1 2 show ?thesis
    by (intro exI [of _ s'] conjI)
qed

end
